theory Spec2Isabelle
  imports Complex_Main "HOL-Library.Sublist"
begin

section \<open>Strings, character classes and the regular expressions of route.ts\<close>

text \<open>
  A JavaScript string is a sequence of UTF-16 code units, and \<open>length\<close> counts code
  units. A string is modelled as the list of its code units, each a natural number.
  Every character class of route.ts lies in the Basic Multilingual Plane, so the one
  regular expression with the \<open>u\<close> flag (the sentence boundary) decides the same on
  code units as on code points: a surrogate is in none of its classes.
\<close>

type_synonym jsstring = "nat list"

definition lit :: "string \<Rightarrow> jsstring" where
  "lit s = map of_char s"

text \<open>
  \<open>\s\<close> of a JavaScript regular expression and the characters removed by
  \<open>String.prototype.trim\<close> are the same set, WhiteSpace and LineTerminator of ECMAScript:
  TAB, LF, VT, FF, CR, SP, NBSP, U+1680, U+2000 to U+200A, U+2028, U+2029, U+202F, U+205F,
  U+3000 and U+FEFF.
\<close>

definition isWhitespace :: "nat \<Rightarrow> bool" where
  "isWhitespace c \<longleftrightarrow>
     (9 \<le> c \<and> c \<le> 13) \<or> c = 32 \<or> c = 160 \<or> c = 5760 \<or> (8192 \<le> c \<and> c \<le> 8202)
     \<or> c = 8232 \<or> c = 8233 \<or> c = 8239 \<or> c = 8287 \<or> c = 12288 \<or> c = 65279"

text \<open>The class \<open>[\u0000-\u001f\u007f]\<close>.\<close>

definition isControl :: "nat \<Rightarrow> bool" where
  "isControl c \<longleftrightarrow> c \<le> 31 \<or> c = 127"

text \<open>The class \<open>[.!?]\<close> of the lookbehind.\<close>

definition isTerminal :: "nat \<Rightarrow> bool" where
  "isTerminal c \<longleftrightarrow> c = 46 \<or> c = 33 \<or> c = 63"

text \<open>The class \<open>[A-Z\<dots>]\<close> of the lookahead: A to Z, U+00C0 to U+00D6, U+00D8 to U+00DE.\<close>

definition isUpperStart :: "nat \<Rightarrow> bool" where
  "isUpperStart c \<longleftrightarrow> (65 \<le> c \<and> c \<le> 90) \<or> (192 \<le> c \<and> c \<le> 214) \<or> (216 \<le> c \<and> c \<le> 222)"

text \<open>The class \<open>[:.!?]\<close> of buildTitle.\<close>

definition isTitleDelimiter :: "nat \<Rightarrow> bool" where
  "isTitleDelimiter c \<longleftrightarrow> c = 58 \<or> c = 46 \<or> c = 33 \<or> c = 63"

text \<open>
  The characters that the negated class of tokenize keeps: a to z, U+00E0 to U+00FF,
  white space and the hyphen.
\<close>

definition isTokenChar :: "nat \<Rightarrow> bool" where
  "isTokenChar c \<longleftrightarrow> (97 \<le> c \<and> c \<le> 122) \<or> (224 \<le> c \<and> c \<le> 255) \<or> isWhitespace c \<or> c = 45"

text \<open>\<open>s.replace(/\s+/g, " ")\<close>: every maximal run of white space becomes one space.\<close>

function collapseWhitespace :: "jsstring \<Rightarrow> jsstring" where
  "collapseWhitespace [] = []"
| "collapseWhitespace (c # cs) =
     (if isWhitespace c then 32 # collapseWhitespace (dropWhile isWhitespace cs)
      else c # collapseWhitespace cs)"
  by pat_completeness auto
termination
  by (relation "measure length") (auto simp: le_imp_less_Suc length_dropWhile_le)

text \<open>\<open>s.trim()\<close>.\<close>

definition trim :: "jsstring \<Rightarrow> jsstring" where
  "trim s = rev (dropWhile isWhitespace (rev (dropWhile isWhitespace s)))"

text \<open>
  \<open>s.split(/\s+/)\<close>. The first argument is the piece being read, reversed. A match
  at a white-space code unit runs to the end of the run; the piece before it is pushed
  (also when it is empty, at the start of the string), and the piece after the last match
  is pushed at the end (also when it is empty).
\<close>

function splitWhitespace :: "jsstring \<Rightarrow> jsstring \<Rightarrow> jsstring list" where
  "splitWhitespace acc [] = [rev acc]"
| "splitWhitespace acc (c # cs) =
     (if isWhitespace c then rev acc # splitWhitespace [] (dropWhile isWhitespace cs)
      else splitWhitespace (c # acc) cs)"
  by pat_completeness auto
termination
  by (relation "measure (\<lambda>(acc, s). length s)") (auto simp: le_imp_less_Suc length_dropWhile_le)

text \<open>\<open>s.split(/[:.!?]/)\<close>: every delimiter is a match of length one.\<close>

fun splitDelimiters :: "jsstring \<Rightarrow> jsstring \<Rightarrow> jsstring list" where
  "splitDelimiters acc [] = [rev acc]"
| "splitDelimiters acc (c # cs) =
     (if isTitleDelimiter c then rev acc # splitDelimiters [] cs
      else splitDelimiters (c # acc) cs)"

text \<open>
  The sentence boundary \<open>(?<=[.!?])\s+(?=[A-Z\<dots>])\<close> tried at a position: the code unit
  before the position is a terminal mark, the position holds white space, and the maximal
  white-space run from there is followed by an upper-case letter of the class. (The
  greedy \<open>\s+\<close> can only succeed on the maximal run: after a shorter one the next code
  unit is white space, not a letter.) The first argument is the code unit before the
  position, if any; the second the string from the position on.
\<close>

definition boundaryAt :: "nat option \<Rightarrow> jsstring \<Rightarrow> bool" where
  "boundaryAt prev rest =
     (case prev of None \<Rightarrow> False
      | Some p \<Rightarrow> isTerminal p \<and>
          (case rest of [] \<Rightarrow> False
           | c # cs \<Rightarrow> isWhitespace c \<and>
               (case dropWhile isWhitespace cs of [] \<Rightarrow> False | u # _ \<Rightarrow> isUpperStart u)))"

text \<open>
  \<open>s.split(/(?<=[.!?])\s+(?=[A-Z\<dots>])/u)\<close>. The piece being read is kept reversed, so
  the code unit before the position is its head. Right after a match the piece is empty
  and the code unit before the position is the white space the match consumed, which is
  no terminal mark: \<open>None\<close> decides the same there.
\<close>

function splitBoundaries :: "jsstring \<Rightarrow> jsstring \<Rightarrow> jsstring list" where
  "splitBoundaries acc [] = [rev acc]"
| "splitBoundaries acc (c # cs) =
     (if boundaryAt (case acc of [] \<Rightarrow> None | p # _ \<Rightarrow> Some p) (c # cs)
      then rev acc # splitBoundaries [] (dropWhile isWhitespace cs)
      else splitBoundaries (c # acc) cs)"
  by pat_completeness auto
termination
  by (relation "measure (\<lambda>(acc, s). length s)") (auto simp: le_imp_less_Suc length_dropWhile_le)

text \<open>\<open>xs.slice(0, n)\<close> for an integer \<open>n\<close>: a negative end counts from the end.\<close>

definition slice0 :: "int \<Rightarrow> 'a list \<Rightarrow> 'a list" where
  "slice0 n xs =
     (if n < 0 then take (nat (max (int (length xs) + n) 0)) xs
      else take (nat (min n (int (length xs)))) xs)"

text \<open>\<open>xs.join(" ")\<close>.\<close>

fun joinSpace :: "jsstring list \<Rightarrow> jsstring" where
  "joinSpace [] = []"
| "joinSpace [x] = x"
| "joinSpace (x # y # ys) = x @ 32 # joinSpace (y # ys)"

section \<open>The constants\<close>

definition MIN_SENTENCE_LENGTH :: nat where
  "MIN_SENTENCE_LENGTH = 40"

definition MAX_KEY_POINTS :: int where
  "MAX_KEY_POINTS = 6"

text \<open>
  The stop words, in the order of the source. Four of them hold a letter outside ASCII
  (U+00E8, U+00E9, U+00EA), written as its code unit.
\<close>

definition STOPWORDS :: "jsstring list" where
  "STOPWORDS =
    [lit ''a'', lit ''afin'', lit ''ai'', lit ''ainsi'', lit ''alors'', lit ''apr'' @ 232 # lit ''s'',
     lit ''au'', lit ''aucun'', lit ''aussi'', lit ''autre'', lit ''aux'', lit ''avant'',
     lit ''avec'', lit ''avoir'', lit ''bon'', lit ''car'', lit ''ce'', lit ''ceci'', lit ''cela'',
     lit ''ces'', lit ''cet'', lit ''cette'', lit ''ceux'', lit ''chaque'', lit ''comme'',
     lit ''comment'', lit ''dans'', lit ''de'', lit ''des'', lit ''du'', lit ''elle'', lit ''elles'',
     lit ''en'', lit ''encore'', lit ''est'', lit ''et'', 233 # lit ''taient'', 233 # lit ''tait'',
     234 # lit ''tre'', lit ''eu'', lit ''fait'', lit ''faites'', lit ''fais'', lit ''font'',
     lit ''ici'', lit ''il'', lit ''ils'', lit ''je'', lit ''la'', lit ''le'', lit ''les'',
     lit ''leur'', lit ''leurs'', lit ''lui'', lit ''mais'', lit ''mes'', lit ''moi'', lit ''mon'',
     lit ''ne'', lit ''nos'', lit ''notre'', lit ''nous'', lit ''on'', lit ''ou'', lit ''par'',
     lit ''pas'', lit ''peu'', lit ''plus'', lit ''pour'', lit ''qu'', lit ''que'', lit ''quel'',
     lit ''quelle'', lit ''quelles'', lit ''quels'', lit ''qui'', lit ''sa'', lit ''sans'',
     lit ''ses'', lit ''son'', lit ''sont'', lit ''sur'', lit ''ta'', lit ''tandis'', lit ''te'',
     lit ''tes'', lit ''toi'', lit ''ton'', lit ''toujours'', lit ''tous'', lit ''tout'',
     lit ''toute'', lit ''toutes'', lit ''tu'', lit ''un'', lit ''une'', lit ''vos'', lit ''votre'',
     lit ''vous'', lit ''y'']"

definition titleFallback :: jsstring where
  "titleFallback = lit ''Essentiel du chapitre''"

definition callToActionFallback :: jsstring where
  "callToActionFallback =
     lit ''Concluez en soulignant la port'' @ 233 #
     lit ''e pratique de ces enseignements pour le lecteur.''"

definition callToActionLeadIn :: jsstring where
  "callToActionLeadIn = lit ''Poursuivez le chapitre en d'' @ 233 # lit ''veloppant: ''"

section \<open>The pipeline\<close>

text \<open>
  Three steps of tokenize are operations of the JavaScript platform over the whole of
  Unicode: \<open>toLowerCase()\<close>, \<open>normalize("NFD")\<close> and the removal of the code points with
  the property Diacritic. Their tables are no part of the repository; they are
  parameters of the model, and every general theorem below holds for all of them.
\<close>

record unicode_ops =
  toLowerCase :: "jsstring \<Rightarrow> jsstring"
  normalizeNFD :: "jsstring \<Rightarrow> jsstring"
  removeDiacritics :: "jsstring \<Rightarrow> jsstring"

text \<open>
  What the three operations do on a string of ASCII code units: A to Z go to a to z,
  the decomposition changes nothing, and the two ASCII characters with the property
  Diacritic, the circumflex and the grave accent, are removed. Code units from 128 on
  are left alone, which is not what the platform does: this instance is used at ASCII
  inputs only.
\<close>

definition asciiOps :: unicode_ops where
  "asciiOps =
     \<lparr>toLowerCase = map (\<lambda>c. if 65 \<le> c \<and> c \<le> 90 then c + 32 else c),
      normalizeNFD = (\<lambda>s. s),
      removeDiacritics = filter (\<lambda>c. c \<noteq> 94 \<and> c \<noteq> 96)\<rparr>"

datatype error =
    EmptyDocument  \<comment> \<open>the \<open>Error\<close> that summarise throws\<close>
  | TypeError      \<comment> \<open>a method called on \<open>undefined\<close>\<close>

record summary =
  titleSuggestion :: jsstring
  thesis :: jsstring
  keyPoints :: "jsstring list"
  callToAction :: jsstring

definition sanitizeText :: "jsstring \<Rightarrow> jsstring" where
  "sanitizeText text =
     trim (map (\<lambda>c. if isControl c then 32 else c) (collapseWhitespace text))"

definition splitIntoSentences :: "jsstring \<Rightarrow> jsstring list" where
  "splitIntoSentences text =
     filter (\<lambda>sentence. MIN_SENTENCE_LENGTH \<le> length sentence)
       (map trim (splitBoundaries [] text))"

definition tokenize :: "unicode_ops \<Rightarrow> jsstring \<Rightarrow> jsstring list" where
  "tokenize U sentence =
     filter (\<lambda>token. token \<noteq> [] \<and> token \<notin> set STOPWORDS)
       (splitWhitespace []
         (map (\<lambda>c. if isTokenChar c then c else 32)
           (removeDiacritics U (normalizeNFD U (toLowerCase U sentence)))))"

text \<open>
  A \<open>Map\<close> keyed by strings is a partial function. The counts are natural numbers
  (a JavaScript number holds every integer below \<open>2^53\<close> exactly). \<open>m.get(k) ?? 0\<close>:
\<close>

definition getOr0 :: "(jsstring \<rightharpoonup> 'n::zero) \<Rightarrow> jsstring \<Rightarrow> 'n" where
  "getOr0 m k = (case m k of None \<Rightarrow> 0 | Some v \<Rightarrow> v)"

definition buildFrequencyMap :: "unicode_ops \<Rightarrow> jsstring list \<Rightarrow> (jsstring \<rightharpoonup> nat)" where
  "buildFrequencyMap U sentences =
     fold (\<lambda>sentence freq.
             fold (\<lambda>token freq. freq(token \<mapsto> getOr0 freq token + 1)) (tokenize U sentence) freq)
       sentences Map.empty"

text \<open>
  The score is the quotient of two integers; the model keeps it exact, as a rational
  number (the JavaScript number is that quotient rounded to a double). Apart from the
  value of the score itself, the theorems below use of a score only that a sentence has
  one score and that the score of a sentence with tokens is positive, which the rounded
  quotient satisfies as well.
\<close>

definition scoreSentences ::
  "unicode_ops \<Rightarrow> jsstring list \<Rightarrow> (jsstring \<rightharpoonup> nat) \<Rightarrow> (jsstring \<rightharpoonup> rat)" where
  "scoreSentences U sentences freq =
     fold (\<lambda>sentence scores.
             let tokens = tokenize U sentence in
             if tokens = [] then scores
             else
               let total = foldl (\<lambda>sum token. sum + getOr0 freq token) 0 tokens
               in scores(sentence \<mapsto> of_nat total / of_nat (length tokens)))
       sentences Map.empty"

text \<open>
  \<open>Array.prototype.sort\<close> with a comparator is stable: an element goes before another
  one when the comparator is negative, and equal elements keep their order. Insertion
  from the right, each element put before the first one it is not greater than, computes
  that order.
\<close>

fun insertBy :: "('a \<Rightarrow> 'a \<Rightarrow> rat) \<Rightarrow> 'a \<Rightarrow> 'a list \<Rightarrow> 'a list" where
  "insertBy cmp x [] = [x]"
| "insertBy cmp x (y # ys) = (if cmp x y \<le> 0 then x # y # ys else y # insertBy cmp x ys)"

definition sortBy :: "('a \<Rightarrow> 'a \<Rightarrow> rat) \<Rightarrow> 'a list \<Rightarrow> 'a list" where
  "sortBy cmp xs = foldr (insertBy cmp) xs []"

definition pickTopSentences ::
  "jsstring list \<Rightarrow> (jsstring \<rightharpoonup> rat) \<Rightarrow> int \<Rightarrow> jsstring list" where
  "pickTopSentences sentences scores limit =
     (let sorted = sortBy (\<lambda>a b. getOr0 scores b - getOr0 scores a) sentences;
          strongest = set (slice0 limit sorted)
      in filter (\<lambda>sentence. sentence \<in> strongest) sentences)"

text \<open>
  \<open>first.split(/[:.!?]/)[0].trim()\<close>: element 0 of an empty array is \<open>undefined\<close>, and
  \<open>trim\<close> on it throws a TypeError.
\<close>

definition buildTitle :: "jsstring list \<Rightarrow> error + jsstring" where
  "buildTitle sentences =
     (case sentences of
        [] \<Rightarrow> Inr titleFallback
      | first # _ \<Rightarrow>
          (case splitDelimiters [] first of
             [] \<Rightarrow> Inl TypeError
           | piece # _ \<Rightarrow>
               let snippet = trim piece
               in Inr (if 0 < length snippet then snippet else titleFallback)))"

definition buildThesis :: "jsstring list \<Rightarrow> jsstring" where
  "buildThesis sentences = trim (collapseWhitespace (joinSpace (slice0 2 sentences)))"

text \<open>
  \<open>sentences[sentences.length - 1] ?? ""\<close>, then \<open>!last\<close>, which holds of the empty
  string only.
\<close>

definition buildCallToAction :: "jsstring list \<Rightarrow> jsstring" where
  "buildCallToAction sentences =
     (let lastSentence = (if sentences = [] then [] else last sentences)
      in if lastSentence = [] then callToActionFallback else callToActionLeadIn @ lastSentence)"

definition summarise :: "unicode_ops \<Rightarrow> jsstring \<Rightarrow> error + summary" where
  "summarise U text =
     (let sanitized = sanitizeText text;
          sentences = slice0 180 (splitIntoSentences sanitized)
      in if sentences = [] then Inl EmptyDocument
         else
           let freq = buildFrequencyMap U sentences;
               scores = scoreSentences U sentences freq;
               keySentences = pickTopSentences sentences scores MAX_KEY_POINTS
           in (case buildTitle keySentences of
                 Inl e \<Rightarrow> Inl e
               | Inr title \<Rightarrow>
                   Inr \<lparr>titleSuggestion = title,
                        thesis = buildThesis sentences,
                        keyPoints = keySentences,
                        callToAction = buildCallToAction sentences\<rparr>))"

section \<open>Concrete documents\<close>

text \<open>
  A document of three fragments: a sentence, a fragment below the length floor, and a
  sentence with a colon. The first sentence holds a run of three spaces.
\<close>

definition demoText :: jsstring where
  "demoText = lit ''Le chat noir mange   la souris grise chaque matin. Bref. Le chien dort: sur le tapis rouge du grand salon bleu.''"

definition demoFirst :: jsstring where
  "demoFirst = lit ''Le chat noir mange la souris grise chaque matin.''"

definition demoSecond :: jsstring where
  "demoSecond = lit ''Le chien dort: sur le tapis rouge du grand salon bleu.''"

text \<open>The same sentence seven times.\<close>

definition dupText :: jsstring where
  "dupText = lit ''Le chat noir mange la souris grise chaque matin. Le chat noir mange la souris grise chaque matin. Le chat noir mange la souris grise chaque matin. Le chat noir mange la souris grise chaque matin. Le chat noir mange la souris grise chaque matin. Le chat noir mange la souris grise chaque matin. Le chat noir mange la souris grise chaque matin.''"

definition dupSummary :: summary where
  "dupSummary =
     \<lparr>titleSuggestion = lit ''Le chat noir mange la souris grise chaque matin'',
      thesis = demoFirst @ 32 # demoFirst,
      keyPoints = [demoFirst, demoFirst, demoFirst, demoFirst, demoFirst, demoFirst, demoFirst],
      callToAction = callToActionLeadIn @ demoFirst\<rparr>"


text \<open>
  The first sentence of the first document a number of times, each time followed by a
  space, then its second sentence; and the document of 181 sentences of that form.
\<close>

definition repeated :: "nat \<Rightarrow> jsstring" where
  "repeated n = concat (replicate n (demoFirst @ [32])) @ demoSecond"

definition longText :: jsstring where
  "longText = repeated 180"

definition longSummary :: summary where
  "longSummary =
     \<lparr>titleSuggestion = lit ''Le chat noir mange la souris grise chaque matin'',
      thesis = demoFirst @ 32 # demoFirst,
      keyPoints = replicate 180 demoFirst,
      callToAction = callToActionLeadIn @ demoFirst\<rparr>"

text \<open>
  A document of three sentences and 208 code units, with two control characters U+0001
  between two words of the first sentence.
\<close>

definition controlText :: jsstring where
  "controlText =
     lit ''Le chat noir mange'' @ [1, 1] @
     lit ''la souris grise chaque matin. Le chien dort sur le tapis rouge du grand salon bleu. Le jardin de la maison est plein de fleurs rouges et de grands arbres verts depuis le printemps dernier.''"

definition controlFirst :: jsstring where
  "controlFirst = lit ''Le chat noir mange  la souris grise chaque matin.''"

definition controlSecond :: jsstring where
  "controlSecond = lit ''Le chien dort sur le tapis rouge du grand salon bleu.''"

definition controlThird :: jsstring where
  "controlThird = lit ''Le jardin de la maison est plein de fleurs rouges et de grands arbres verts depuis le printemps dernier.''"

definition controlSummary :: summary where
  "controlSummary =
     \<lparr>titleSuggestion = lit ''Le chat noir mange  la souris grise chaque matin'',
      thesis = lit ''Le chat noir mange la souris grise chaque matin. Le chien dort sur le tapis rouge du grand salon bleu.'',
      keyPoints = [controlFirst, controlSecond, controlThird],
      callToAction = callToActionLeadIn @ controlThird\<rparr>"



text \<open>
  A document of seven sentences and 345 code units: the sentence of stop words, then six
  times a sentence with tokens.
\<close>

definition sixText :: jsstring where
  "sixText = lit ''Et la ou le de du des un une et la ou le de du des. Le chat noir mange la souris grise chaque matin. Le chat noir mange la souris grise chaque matin. Le chat noir mange la souris grise chaque matin. Le chat noir mange la souris grise chaque matin. Le chat noir mange la souris grise chaque matin. Le chat noir mange la souris grise chaque matin.''"


text \<open>
  A document of 181 sentences: a sentence that ends with an exclamation mark, 179 times
  the same words with a full stop, and the first sentence again. The two sentences have
  the same tokens.
\<close>

definition exclaimed :: jsstring where
  "exclaimed = lit ''Le chat noir mange la souris grise chaque matin!''"

definition orderTail :: "nat \<Rightarrow> jsstring" where
  "orderTail n = concat (replicate n (demoFirst @ [32])) @ exclaimed"

definition orderText :: jsstring where
  "orderText = exclaimed @ 32 # orderTail 179"

definition orderSummary :: summary where
  "orderSummary =
     \<lparr>titleSuggestion = lit ''Le chat noir mange la souris grise chaque matin'',
      thesis = exclaimed @ 32 # demoFirst,
      keyPoints = exclaimed # replicate 179 demoFirst,
      callToAction = callToActionLeadIn @ demoFirst\<rparr>"

section \<open>Slices, sorting and filtering\<close>

lemma slice0_nonneg: "0 \<le> n \<Longrightarrow> slice0 n xs = take (nat n) xs"
  by (simp add: slice0_def min_def)

lemma set_slice0: "set (slice0 n xs) \<subseteq> set xs"
  by (auto simp: slice0_def dest: in_set_takeD)

lemma length_slice0: "0 \<le> n \<Longrightarrow> length (slice0 n xs) \<le> nat n"
  by (simp add: slice0_nonneg)

lemma slice0_Nil_iff: "0 < n \<Longrightarrow> slice0 n xs = [] \<longleftrightarrow> xs = []"
  by (simp add: slice0_nonneg)

lemma subseq_slice0: "subseq (slice0 n xs) xs"
proof -
  have "subseq (take k xs) xs" for k
    by (rule prefix_imp_subseq) (rule take_is_prefix)
  then show ?thesis by (simp add: slice0_def)
qed

lemma set_insertBy: "set (insertBy cmp x ys) = insert x (set ys)"
  by (induction ys) auto

lemma set_sortBy: "set (sortBy cmp xs) = set xs"
  by (induction xs) (simp_all add: sortBy_def set_insertBy)

lemma length_insertBy: "length (insertBy cmp x ys) = Suc (length ys)"
  by (induction ys) auto

lemma length_sortBy: "length (sortBy cmp xs) = length xs"
  by (induction xs) (simp_all add: sortBy_def length_insertBy)





lemma insertBy_replicate:
  "insertBy (\<lambda>a b. key b - key a) s (replicate n s) = replicate (Suc n) s"
  by (cases n) simp_all

lemma sortBy_replicate:
  "sortBy (\<lambda>a b. key b - key a) (replicate n s) = replicate n s"
proof (induction n)
  case 0
  then show ?case by (simp add: sortBy_def)
next
  case (Suc n)
  have "sortBy (\<lambda>a b. key b - key a) (replicate (Suc n) s) =
      insertBy (\<lambda>a b. key b - key a) s (sortBy (\<lambda>a b. key b - key a) (replicate n s))"
    by (simp add: sortBy_def)
  then show ?case by (simp only: Suc insertBy_replicate)
qed


text \<open>
  Two elements that a filter keeps stay in the order of their positions.
\<close>

lemma filter_keeps_order:
  assumes "i < j" "j < length xs" "P (xs ! i)" "P (xs ! j)"
  shows "\<exists>i' j'. i' < j' \<and> j' < length (filter P xs) \<and>
            filter P xs ! i' = xs ! i \<and> filter P xs ! j' = xs ! j"
proof -
  define a where "a = take i xs"
  define b where "b = drop (Suc i) xs"
  define k where "k = j - Suc i"
  have i: "i < length xs" using assms by simp
  have xs: "xs = a @ xs ! i # b"
    unfolding a_def b_def using i by (rule id_take_nth_drop)
  have k: "k < length b" using assms by (simp add: k_def b_def)
  have bk: "b ! k = xs ! j" using assms by (simp add: k_def b_def)
  have b: "b = take k b @ xs ! j # drop (Suc k) b"
    using id_take_nth_drop [OF k] bk by simp
  define i' where "i' = length (filter P a)"
  define m where "m = length (filter P (take k b))"
  have f: "filter P xs =
      filter P a @ xs ! i # filter P (take k b) @ xs ! j # filter P (drop (Suc k) b)"
  proof -
    have "filter P xs = filter P (a @ xs ! i # (take k b @ xs ! j # drop (Suc k) b))"
      using xs b by simp
    then show ?thesis using assms(3,4) by simp
  qed
  have 1: "filter P xs ! i' = xs ! i"
    by (subst f) (simp add: i'_def nth_append)
  have 2: "filter P xs ! (i' + Suc m) = xs ! j"
    by (subst f) (simp add: i'_def m_def nth_append)
  have 3: "i' + Suc m < length (filter P xs)"
    by (subst f) (simp add: i'_def m_def)
  from 1 2 3 show ?thesis by (intro exI [of _ i'] exI [of _ "i' + Suc m"]) simp
qed

section \<open>Trimming\<close>

lemma length_trim_le: "length (trim s) \<le> length s"
proof -
  have "length (trim s) \<le> length (rev (dropWhile isWhitespace s))"
    using length_dropWhile_le [of isWhitespace "rev (dropWhile isWhitespace s)"]
    by (simp add: trim_def)
  also have "\<dots> \<le> length s"
    using length_dropWhile_le [of isWhitespace s] by simp
  finally show ?thesis .
qed

lemma set_trim: "set (trim s) \<subseteq> set s"
  by (auto simp: trim_def dest!: set_dropWhileD)

lemma dropWhile_id: "xs = [] \<or> \<not> P (hd xs) \<Longrightarrow> dropWhile P xs = xs"
  by (cases xs) auto

lemma last_dropWhile: "dropWhile P xs \<noteq> [] \<Longrightarrow> last (dropWhile P xs) = last xs"
  by (induction xs) (auto split: if_splits)

lemma trim_ends:
  assumes "trim s \<noteq> []"
  shows "\<not> isWhitespace (hd (trim s))" and "\<not> isWhitespace (last (trim s))"
proof -
  let ?t = "dropWhile isWhitespace s"
  let ?u = "dropWhile isWhitespace (rev ?t)"
  have u: "?u \<noteq> []" using assms by (simp add: trim_def)
  have t: "?t \<noteq> []"
  proof
    assume a: "?t = []"
    have "?u = []" unfolding a by simp
    with u show False by blast
  qed
  have "last (trim s) = hd ?u" using u by (simp add: trim_def last_rev)
  then show "\<not> isWhitespace (last (trim s))" using hd_dropWhile [OF u] by simp
  have "hd (trim s) = last ?u" using u by (simp add: trim_def hd_rev)
  also have "\<dots> = last (rev ?t)" using u by (rule last_dropWhile)
  also have "\<dots> = hd ?t" using t by (simp add: last_rev)
  finally show "\<not> isWhitespace (hd (trim s))" using hd_dropWhile [OF t] by simp
qed

lemma trim_id:
  assumes "s = [] \<or> (\<not> isWhitespace (hd s) \<and> \<not> isWhitespace (last s))"
  shows "trim s = s"
proof (cases "s = []")
  case True
  then show ?thesis by (simp add: trim_def)
next
  case False
  with assms have h: "\<not> isWhitespace (hd s)" and l: "\<not> isWhitespace (last s)" by auto
  have 1: "dropWhile isWhitespace s = s" using h by (intro dropWhile_id) simp
  have "hd (rev s) = last s" using False by (simp add: hd_rev)
  then have 2: "dropWhile isWhitespace (rev s) = rev s" using l by (intro dropWhile_id) simp
  show ?thesis by (simp add: trim_def 1 2)
qed

lemma trim_trim: "trim (trim s) = trim s"
  using trim_ends [of s] by (intro trim_id) blast

lemma sublist_trim: "sublist (trim s) s"
proof -
  let ?t = "dropWhile isWhitespace s"
  have "suffix (dropWhile isWhitespace (rev ?t)) (rev ?t)" by (rule suffix_dropWhile)
  then have "prefix (trim s) ?t" by (simp add: trim_def suffix_to_prefix)
  then have "sublist (trim s) ?t" by (rule prefix_imp_sublist)
  moreover have "sublist ?t s" by (rule suffix_imp_sublist) (rule suffix_dropWhile)
  ultimately show ?thesis by (rule sublist_order.order_trans)
qed

section \<open>The sanitizer\<close>

text \<open>
  What holds of every output of sanitizeText: no control character, no white space but
  the space, no white space at either end. Two consecutive spaces are excluded only for
  an input whose control characters are all white space (TAB, LF, VT, FF, CR): a space
  put in for another control character comes after the runs were collapsed.
\<close>

lemma trim_sanitizeText: "trim (sanitizeText raw) = sanitizeText raw"
  by (simp add: sanitizeText_def trim_trim)

lemma set_collapseWhitespace:
  "c \<in> set (collapseWhitespace t) \<Longrightarrow> c = 32 \<or> (c \<in> set t \<and> \<not> isWhitespace c)"
proof (induction t rule: collapseWhitespace.induct)
  case 1
  then show ?case by simp
next
  case (2 d ds)
  then show ?case by (auto split: if_splits dest: set_dropWhileD)
qed

lemma sanitizeText_chars:
  assumes "c \<in> set (sanitizeText t)"
  shows "\<not> isControl c" and "isWhitespace c \<Longrightarrow> c = 32"
proof -
  from assms have "c \<in> set (map (\<lambda>c. if isControl c then 32 else c) (collapseWhitespace t))"
    using set_trim [of "map (\<lambda>c. if isControl c then 32 else c) (collapseWhitespace t)"]
    unfolding sanitizeText_def by blast
  then obtain d where d: "d \<in> set (collapseWhitespace t)" "c = (if isControl d then 32 else d)"
    by auto
  have "\<not> isControl (32::nat)" by (simp add: isControl_def)
  with d show "\<not> isControl c" by (auto split: if_splits)
  from set_collapseWhitespace [OF d(1)] d(2) show "c = 32" if "isWhitespace c"
    using that by (auto split: if_splits)
qed

lemma sanitizeText_ends:
  assumes "sanitizeText t \<noteq> []"
  shows "\<not> isWhitespace (hd (sanitizeText t))" and "\<not> isWhitespace (last (sanitizeText t))"
  using assms trim_ends unfolding sanitizeText_def by blast+

lemma collapse_no_double_space: "\<not> sublist [32, 32] (collapseWhitespace t)"
proof (induction t rule: collapseWhitespace.induct)
  case 1
  then show ?case by simp
next
  case (2 c cs)
  have ws32: "isWhitespace 32" by (simp add: isWhitespace_def)
  show ?case
  proof (cases "isWhitespace c")
    case True
    let ?r = "dropWhile isWhitespace cs"
    have "\<not> prefix [32, 32] (32 # collapseWhitespace ?r)"
    proof (cases ?r)
      case Nil
      show ?thesis unfolding Nil by simp
    next
      case (Cons d ds)
      then have "\<not> isWhitespace d" using hd_dropWhile [of isWhitespace cs] by auto
      then have "collapseWhitespace ?r = d # collapseWhitespace ds" "d \<noteq> 32"
        using Cons ws32 by auto
      then show ?thesis by simp
    qed
    with True 2(1) show ?thesis by (simp add: sublist_Cons_right)
  next
    case False
    then have "c \<noteq> 32" using ws32 by auto
    with False 2(2) show ?thesis by (simp add: sublist_Cons_right)
  qed
qed

lemma sanitizeText_no_double_space:
  assumes "\<forall>c \<in> set t. isControl c \<longrightarrow> isWhitespace c"
  shows "\<not> sublist [32, 32] (sanitizeText t)"
proof -
  have "map (\<lambda>c. if isControl c then 32 else c) (collapseWhitespace t) = collapseWhitespace t"
  proof (rule map_idI)
    fix c assume "c \<in> set (collapseWhitespace t)"
    from set_collapseWhitespace [OF this] assms
    show "(if isControl c then 32 else c) = c" by auto
  qed
  then have "sublist (sanitizeText t) (collapseWhitespace t)"
    using sublist_trim [of "collapseWhitespace t"] by (simp add: sanitizeText_def)
  then show ?thesis
    using collapse_no_double_space [of t] sublist_order.order_trans by blast
qed

section \<open>The segmenter\<close>

lemma length_splitBoundaries:
  "piece \<in> set (splitBoundaries acc s) \<Longrightarrow> length piece \<le> length acc + length s"
proof (induction acc s rule: splitBoundaries.induct)
  case (1 acc)
  then show ?case by simp
next
  case (2 acc c cs)
  show ?case
  proof (cases "boundaryAt (case acc of [] \<Rightarrow> None | p # _ \<Rightarrow> Some p) (c # cs)")
    case True
    with 2 have "piece = rev acc \<or> piece \<in> set (splitBoundaries [] (dropWhile isWhitespace cs))"
      by simp
    then show ?thesis
    proof
      assume "piece = rev acc"
      then show ?thesis by simp
    next
      assume "piece \<in> set (splitBoundaries [] (dropWhile isWhitespace cs))"
      with 2(1) [OF True] have "length piece \<le> length (dropWhile isWhitespace cs)" by simp
      also have "\<dots> \<le> length cs" by (rule length_dropWhile_le)
      finally show ?thesis by simp
    qed
  next
    case False
    with 2 show ?thesis by simp
  qed
qed

lemma length_sentence_le:
  assumes "sentence \<in> set (splitIntoSentences text)"
  shows "MIN_SENTENCE_LENGTH \<le> length sentence" and "length sentence \<le> length text"
proof -
  from assms show "MIN_SENTENCE_LENGTH \<le> length sentence"
    by (simp add: splitIntoSentences_def)
  from assms obtain piece where p: "piece \<in> set (splitBoundaries [] text)" "sentence = trim piece"
    by (auto simp: splitIntoSentences_def)
  have "length sentence \<le> length piece" using p(2) by (simp add: length_trim_le)
  also have "\<dots> \<le> length text" using length_splitBoundaries [OF p(1)] by simp
  finally show "length sentence \<le> length text" .
qed

lemma short_text_no_sentence:
  assumes "length text < MIN_SENTENCE_LENGTH"
  shows "splitIntoSentences text = []"
proof (rule ccontr)
  assume "splitIntoSentences text \<noteq> []"
  then obtain sentence where "sentence \<in> set (splitIntoSentences text)"
    by (cases "splitIntoSentences text") auto
  from length_sentence_le [OF this] assms show False by simp
qed

lemma splitBoundaries_no_terminal:
  assumes "\<forall>c \<in> set acc \<union> set s. \<not> isTerminal c"
  shows "splitBoundaries acc s = [rev acc @ s]"
  using assms
proof (induction s arbitrary: acc)
  case Nil
  then show ?case by simp
next
  case (Cons c cs)
  have "\<not> boundaryAt (case acc of [] \<Rightarrow> None | p # _ \<Rightarrow> Some p) (c # cs)"
    using Cons.prems by (cases acc) (simp_all add: boundaryAt_def)
  moreover have "splitBoundaries (c # acc) cs = [rev (c # acc) @ cs]"
    using Cons.prems by (intro Cons.IH) auto
  ultimately show ?case by simp
qed

lemma splitIntoSentences_no_terminal:
  assumes "\<forall>c \<in> set text. \<not> isTerminal c"
  shows "splitIntoSentences text =
           (if MIN_SENTENCE_LENGTH \<le> length (trim text) then [trim text] else [])"
proof -
  have "splitBoundaries [] text = [text]"
    using assms splitBoundaries_no_terminal [of "[]" "text"] by simp
  then show ?thesis by (simp add: splitIntoSentences_def)
qed

section \<open>The scorer\<close>






lemma foldl_total:
  "foldl (\<lambda>sum token. sum + getOr0 freq token) a tokens = a + sum_list (map (getOr0 freq) tokens)"
  for a :: nat
  by (induction tokens arbitrary: a) simp_all

lemma scoreSentences_fold:
  "fold (\<lambda>sentence scores.
             let tokens = tokenize U sentence in
             if tokens = [] then scores
             else
               let total = foldl (\<lambda>sum token. sum + getOr0 freq token) 0 tokens
               in scores(sentence \<mapsto> of_nat total / of_nat (length tokens)))
       sentences m s =
   (if s \<in> set sentences \<and> tokenize U s \<noteq> []
    then Some (of_nat (sum_list (map (getOr0 freq) (tokenize U s))) / of_nat (length (tokenize U s)))
    else m s)"
proof (induction sentences arbitrary: m)
  case Nil
  then show ?case by simp
next
  case (Cons x xs)
  let ?step = "\<lambda>sentence scores.
             let tokens = tokenize U sentence in
             if tokens = [] then scores
             else
               let total = foldl (\<lambda>sum token. sum + getOr0 freq token) 0 tokens
               in scores(sentence \<mapsto> of_nat total / of_nat (length tokens))"
  have "fold ?step (x # xs) m s = fold ?step xs (?step x m) s" by simp
  also have "\<dots> = (if s \<in> set xs \<and> tokenize U s \<noteq> []
      then Some (of_nat (sum_list (map (getOr0 freq) (tokenize U s))) / of_nat (length (tokenize U s)))
      else ?step x m s)"
    by (rule Cons.IH)
  also have "\<dots> = (if s \<in> set (x # xs) \<and> tokenize U s \<noteq> []
      then Some (of_nat (sum_list (map (getOr0 freq) (tokenize U s))) / of_nat (length (tokenize U s)))
      else m s)"
    by (simp add: Let_def foldl_total)
  finally show ?case .
qed

lemma scoreSentences_apply:
  "scoreSentences U sentences freq s =
   (if s \<in> set sentences \<and> tokenize U s \<noteq> []
    then Some (of_nat (sum_list (map (getOr0 freq) (tokenize U s))) / of_nat (length (tokenize U s)))
    else None)"
  unfolding scoreSentences_def by (subst scoreSentences_fold) simp



section \<open>The selector\<close>

lemma pickTop_filter:
  "pickTopSentences sentences scores limit =
     filter (\<lambda>s. s \<in> set (pickTopSentences sentences scores limit)) sentences"
  by (auto simp: pickTopSentences_def Let_def intro: filter_cong)

lemma set_pickTop_subset: "set (pickTopSentences sentences scores limit) \<subseteq> set sentences"
  by (auto simp: pickTopSentences_def Let_def)

lemma set_pickTop_strongest:
  "set (pickTopSentences sentences scores limit) \<subseteq>
     set (slice0 limit (sortBy (\<lambda>a b. getOr0 scores b - getOr0 scores a) sentences))"
  by (auto simp: pickTopSentences_def Let_def)

lemma card_set_pickTop:
  assumes "0 \<le> limit"
  shows "card (set (pickTopSentences sentences scores limit)) \<le> nat limit"
proof -
  let ?top = "slice0 limit (sortBy (\<lambda>a b. getOr0 scores b - getOr0 scores a) sentences)"
  have "card (set (pickTopSentences sentences scores limit)) \<le> card (set ?top)"
    by (rule card_mono) (simp_all add: set_pickTop_strongest)
  also have "\<dots> \<le> length ?top" by (rule card_length)
  also have "\<dots> \<le> nat limit" using assms by (rule length_slice0)
  finally show ?thesis .
qed

lemma pickTop_all:
  assumes "int (length sentences) \<le> limit"
  shows "pickTopSentences sentences scores limit = sentences"
proof -
  let ?sorted = "sortBy (\<lambda>a b. getOr0 scores b - getOr0 scores a) sentences"
  have "slice0 limit ?sorted = ?sorted"
    using assms by (simp add: slice0_def length_sortBy min_def)
  then show ?thesis
    by (simp add: pickTopSentences_def Let_def set_sortBy)
qed

lemma pickTop_replicate:
  assumes "0 < n" "0 < limit"
  shows "pickTopSentences (replicate n s) scores limit = replicate n s"
proof -
  have "set (slice0 limit (replicate n s)) = {s}"
    using assms by (simp add: slice0_nonneg min_def)
  then show ?thesis
    by (simp add: pickTopSentences_def Let_def sortBy_replicate)
qed







section \<open>The composer and summarise\<close>

lemma splitDelimiters_hd:
  "\<exists>ps. splitDelimiters acc s = (rev acc @ takeWhile (\<lambda>c. \<not> isTitleDelimiter c) s) # ps"
proof (induction s arbitrary: acc)
  case Nil
  then show ?case by simp
next
  case (Cons c cs)
  show ?case
  proof (cases "isTitleDelimiter c")
    case True
    then show ?thesis by simp
  next
    case False
    from Cons [of "c # acc"] obtain ps where
      "splitDelimiters (c # acc) cs = (rev (c # acc) @ takeWhile (\<lambda>c. \<not> isTitleDelimiter c) cs) # ps"
      by blast
    with False show ?thesis by simp
  qed
qed

lemma buildTitle_Cons:
  "buildTitle (s # rest) =
       Inr (if trim (takeWhile (\<lambda>c. \<not> isTitleDelimiter c) s) = [] then titleFallback
            else trim (takeWhile (\<lambda>c. \<not> isTitleDelimiter c) s))"
proof -
  obtain ps where "splitDelimiters [] s = takeWhile (\<lambda>c. \<not> isTitleDelimiter c) s # ps"
    using splitDelimiters_hd [of "[]" s] by auto
  then show ?thesis by (simp add: buildTitle_def Let_def)
qed

lemma buildTitle_total: "\<exists>t. buildTitle sentences = Inr t"
proof (cases sentences)
  case Nil
  then show ?thesis by (simp add: buildTitle_def)
next
  case (Cons first rest)
  obtain ps where "splitDelimiters [] first = takeWhile (\<lambda>c. \<not> isTitleDelimiter c) first # ps"
    using splitDelimiters_hd [of "[]" first] by auto
  with Cons show ?thesis by (simp add: buildTitle_def Let_def)
qed

lemma buildThesis_two:
  "buildThesis (a # b # rest) = trim (collapseWhitespace (a @ 32 # b))"
  by (simp add: buildThesis_def slice0_def)

lemma buildCallToAction_last:
  assumes "sentences \<noteq> []" "last sentences \<noteq> []"
  shows "buildCallToAction sentences = callToActionLeadIn @ last sentences"
  using assms by (simp add: buildCallToAction_def Let_def)

lemma summarise_Inl:
  "summarise U text = Inl e \<longleftrightarrow> e = EmptyDocument \<and> splitIntoSentences (sanitizeText text) = []"
proof -
  let ?sents = "slice0 180 (splitIntoSentences (sanitizeText text))"
  have nil: "?sents = [] \<longleftrightarrow> splitIntoSentences (sanitizeText text) = []"
    by (simp add: slice0_Nil_iff)
  show ?thesis
  proof (cases "?sents = []")
    case True
    then show ?thesis using nil by (auto simp: summarise_def Let_def)
  next
    case False
    obtain t where "buildTitle (pickTopSentences ?sents
        (scoreSentences U ?sents (buildFrequencyMap U ?sents)) MAX_KEY_POINTS) = Inr t"
      using buildTitle_total by blast
    with False show ?thesis using nil by (auto simp: summarise_def Let_def)
  qed
qed

lemma summarise_Inr:
  assumes "summarise U text = Inr r"
  shows "slice0 180 (splitIntoSentences (sanitizeText text)) \<noteq> []"
    and "keyPoints r = pickTopSentences (slice0 180 (splitIntoSentences (sanitizeText text)))
           (scoreSentences U (slice0 180 (splitIntoSentences (sanitizeText text)))
              (buildFrequencyMap U (slice0 180 (splitIntoSentences (sanitizeText text)))))
           MAX_KEY_POINTS"
    and "callToAction r = buildCallToAction (slice0 180 (splitIntoSentences (sanitizeText text)))"
    and "thesis r = buildThesis (slice0 180 (splitIntoSentences (sanitizeText text)))"
    and "buildTitle (keyPoints r) = Inr (titleSuggestion r)"
  using assms by (auto simp: summarise_def Let_def split: if_splits sum.splits)

section \<open>The concrete documents, evaluated\<close>

lemmas class_defs = isWhitespace_def isControl_def isTerminal_def isUpperStart_def
  isTitleDelimiter_def isTokenChar_def

subsection \<open>Two sentences and a fragment\<close>

lemma demo_sentences: "splitIntoSentences (sanitizeText demoText) = [demoFirst, demoSecond]"
  by (simp add: demoText_def demoFirst_def demoSecond_def lit_def sanitizeText_def trim_def
      splitIntoSentences_def boundaryAt_def MIN_SENTENCE_LENGTH_def class_defs)

lemma demoFirst_title:
  "buildTitle (demoFirst # rest) = Inr (lit ''Le chat noir mange la souris grise chaque matin'')"
  unfolding buildTitle_Cons by (simp add: demoFirst_def lit_def trim_def class_defs)

lemma demoFirst_thesis:
  "buildThesis (demoFirst # demoFirst # rest) = demoFirst @ 32 # demoFirst"
  unfolding buildThesis_two by (simp add: demoFirst_def lit_def trim_def class_defs)

lemma demoFirst_tokens:
  "tokenize asciiOps demoFirst =
     [lit ''chat'', lit ''noir'', lit ''mange'', lit ''souris'', lit ''grise'', lit ''matin'']"
  by (simp add: tokenize_def asciiOps_def demoFirst_def lit_def STOPWORDS_def class_defs)

lemma demo_thesis: "buildThesis [demoFirst, demoSecond] = demoFirst @ 32 # demoSecond"
  by (simp add: demoFirst_def demoSecond_def lit_def buildThesis_def slice0_def trim_def class_defs)

lemma demo_callToAction: "buildCallToAction [demoFirst, demoSecond] = callToActionLeadIn @ demoSecond"
  by (simp add: buildCallToAction_def demoSecond_def lit_def)

lemma demo_summary:
  "summarise U demoText =
     Inr \<lparr>titleSuggestion = lit ''Le chat noir mange la souris grise chaque matin'',
          thesis = demoFirst @ 32 # demoSecond,
          keyPoints = [demoFirst, demoSecond],
          callToAction = callToActionLeadIn @ demoSecond\<rparr>"
proof -
  have s: "slice0 180 (splitIntoSentences (sanitizeText demoText)) = [demoFirst, demoSecond]"
    by (simp add: demo_sentences slice0_def)
  have k: "pickTopSentences [demoFirst, demoSecond] scores MAX_KEY_POINTS = [demoFirst, demoSecond]"
    for scores by (rule pickTop_all) (simp add: MAX_KEY_POINTS_def)
  show ?thesis
    by (simp add: summarise_def Let_def s k demoFirst_title demo_thesis demo_callToAction)
qed

subsection \<open>One sentence seven times\<close>

lemma dup_sentences:
  "splitIntoSentences (sanitizeText dupText) =
     [demoFirst, demoFirst, demoFirst, demoFirst, demoFirst, demoFirst, demoFirst]"
  by (simp add: dupText_def demoFirst_def lit_def sanitizeText_def trim_def
      splitIntoSentences_def boundaryAt_def MIN_SENTENCE_LENGTH_def class_defs)

lemma dup_pickTop:
  "pickTopSentences [s, s, s, s, s, s, s] scores MAX_KEY_POINTS = [s, s, s, s, s, s, s]"
  by (simp add: pickTopSentences_def sortBy_def slice0_def MAX_KEY_POINTS_def)

lemma dup_callToAction:
  "buildCallToAction [demoFirst, demoFirst, demoFirst, demoFirst, demoFirst, demoFirst, demoFirst] =
     callToActionLeadIn @ demoFirst"
  by (simp add: buildCallToAction_def demoFirst_def lit_def)

lemma dup_summary: "summarise U dupText = Inr dupSummary"
proof -
  have s: "slice0 180 (splitIntoSentences (sanitizeText dupText)) =
      [demoFirst, demoFirst, demoFirst, demoFirst, demoFirst, demoFirst, demoFirst]"
    by (simp add: dup_sentences slice0_def)
  show ?thesis
    by (simp add: summarise_def Let_def s dup_pickTop demoFirst_title demoFirst_thesis dup_callToAction
        dupSummary_def)
qed

subsection \<open>Documents with a sentence of stop words\<close>







lemma six_length: "200 \<le> length (trim sixText)"
  by (simp add: sixText_def lit_def trim_def isWhitespace_def)






subsection \<open>181 sentences\<close>

lemma unit_collapse:
  "collapseWhitespace (demoFirst @ 32 # 76 # cs) = demoFirst @ 32 # collapseWhitespace (76 # cs)"
  by (simp add: demoFirst_def lit_def isWhitespace_def)

lemma unit_split:
  "splitBoundaries [] (demoFirst @ 32 # 76 # cs) = demoFirst # splitBoundaries [] (76 # cs)"
  by (simp add: demoFirst_def lit_def boundaryAt_def class_defs)

lemma demoSecond_collapse: "collapseWhitespace demoSecond = demoSecond"
  by (simp add: demoSecond_def lit_def isWhitespace_def)

lemma demoSecond_split: "splitBoundaries [] demoSecond = [demoSecond]"
  by (simp add: demoSecond_def lit_def boundaryAt_def class_defs)

lemma demo_no_control:
  "\<forall>c \<in> set demoFirst \<union> {32} \<union> set demoSecond. \<not> isControl c"
  by (simp add: demoFirst_def demoSecond_def lit_def isControl_def)

lemma demo_trimmed:
  "trim demoFirst = demoFirst" "trim demoSecond = demoSecond"
  by (simp_all add: demoFirst_def demoSecond_def lit_def trim_def isWhitespace_def)

lemma demo_lengths:
  "MIN_SENTENCE_LENGTH \<le> length demoFirst" "MIN_SENTENCE_LENGTH \<le> length demoSecond"
  by (simp_all add: demoFirst_def demoSecond_def lit_def MIN_SENTENCE_LENGTH_def)

lemma demo_heads:
  "\<exists>cs. demoFirst = 76 # cs" "\<exists>cs. demoSecond = 76 # cs"
  by (simp_all add: demoFirst_def demoSecond_def lit_def)

lemma demoSecond_last: "demoSecond \<noteq> []" "last demoSecond = 46"
  by (simp_all add: demoSecond_def lit_def)

lemma repeated_Suc: "repeated (Suc n) = demoFirst @ 32 # repeated n"
  by (simp add: repeated_def)

lemma repeated_head: "\<exists>cs. repeated n = 76 # cs"
proof (cases n)
  case 0
  then show ?thesis using demo_heads(2) by (simp add: repeated_def)
next
  case (Suc m)
  from demo_heads(1) obtain cs where d: "demoFirst = 76 # cs" by blast
  show ?thesis unfolding Suc repeated_Suc d by simp
qed

lemma repeated_collapse: "collapseWhitespace (repeated n) = repeated n"
proof (induction n)
  case 0
  then show ?case by (simp add: repeated_def demoSecond_collapse)
next
  case (Suc n)
  obtain cs where cs: "repeated n = 76 # cs" using repeated_head by blast
  have "collapseWhitespace (repeated (Suc n)) = demoFirst @ 32 # collapseWhitespace (76 # cs)"
    by (simp only: repeated_Suc cs unit_collapse)
  also have "\<dots> = demoFirst @ 32 # repeated n" using Suc cs by simp
  finally show ?case by (simp only: repeated_Suc)
qed

lemma repeated_split:
  "splitBoundaries [] (repeated n) = replicate n demoFirst @ [demoSecond]"
proof (induction n)
  case 0
  then show ?case by (simp add: repeated_def demoSecond_split)
next
  case (Suc n)
  obtain cs where cs: "repeated n = 76 # cs" using repeated_head by blast
  have "splitBoundaries [] (repeated (Suc n)) = demoFirst # splitBoundaries [] (76 # cs)"
    by (simp only: repeated_Suc cs unit_split)
  also have "\<dots> = demoFirst # replicate n demoFirst @ [demoSecond]" using Suc cs by simp
  finally show ?case by simp
qed

lemma set_repeated: "set (repeated n) \<subseteq> set demoFirst \<union> {32} \<union> set demoSecond"
proof (induction n)
  case 0
  then show ?case by (auto simp: repeated_def)
next
  case (Suc n)
  then show ?case by (auto simp: repeated_Suc)
qed

lemma repeated_no_control: "c \<in> set (repeated n) \<Longrightarrow> \<not> isControl c"
  using demo_no_control set_repeated [of n] by blast

lemma repeated_sanitize: "sanitizeText (repeated n) = repeated n"
proof -
  have m: "map (\<lambda>c. if isControl c then 32 else c) (repeated n) = repeated n"
    by (rule map_idI) (simp add: repeated_no_control)
  obtain cs where cs: "repeated n = 76 # cs" using repeated_head by blast
  have h: "\<not> isWhitespace (hd (repeated n))" by (simp add: cs isWhitespace_def)
  have "last (repeated n) = 46" by (simp add: repeated_def demoSecond_last)
  then have l: "\<not> isWhitespace (last (repeated n))" by (simp add: isWhitespace_def)
  have "trim (repeated n) = repeated n" using h l by (intro trim_id) simp
  then show ?thesis by (simp add: sanitizeText_def repeated_collapse m)
qed

lemma repeated_sentences:
  "splitIntoSentences (sanitizeText (repeated n)) = replicate n demoFirst @ [demoSecond]"
  by (simp add: repeated_sanitize splitIntoSentences_def repeated_split demo_trimmed demo_lengths)

lemma long_sentences:
  "splitIntoSentences (sanitizeText longText) = replicate 180 demoFirst @ [demoSecond]"
  using repeated_sentences [of 180] by (simp add: longText_def)

lemma long_summary: "summarise U longText = Inr longSummary"
proof -
  have s: "slice0 180 (splitIntoSentences (sanitizeText longText)) = replicate 180 demoFirst"
    by (simp add: long_sentences slice0_def)
  have k: "pickTopSentences (replicate 180 demoFirst) scores MAX_KEY_POINTS = replicate 180 demoFirst"
    for scores by (rule pickTop_replicate) (simp_all add: MAX_KEY_POINTS_def)
  have r: "replicate 180 demoFirst = demoFirst # demoFirst # replicate 178 demoFirst"
    using replicate_Suc [of 179 demoFirst] replicate_Suc [of 178 demoFirst] by simp
  have ne: "demoFirst \<noteq> []" by (simp add: demoFirst_def lit_def)
  have t: "buildTitle (replicate 180 demoFirst) =
      Inr (lit ''Le chat noir mange la souris grise chaque matin'')"
    unfolding r by (rule demoFirst_title)
  have th: "buildThesis (replicate 180 demoFirst) = demoFirst @ 32 # demoFirst"
    unfolding r by (rule demoFirst_thesis)
  have c: "buildCallToAction (replicate 180 demoFirst) = callToActionLeadIn @ demoFirst"
    using ne by (subst buildCallToAction_last) simp_all
  have z: "replicate 180 demoFirst \<noteq> []" by simp
  show ?thesis
    unfolding summarise_def Let_def s k t th c longSummary_def using z by simp
qed

subsection \<open>181 sentences, the first one again at the end\<close>

lemma exclaimed_unit_collapse:
  "collapseWhitespace (exclaimed @ 32 # 76 # cs) = exclaimed @ 32 # collapseWhitespace (76 # cs)"
  by (simp add: exclaimed_def lit_def isWhitespace_def)

lemma exclaimed_unit_split:
  "splitBoundaries [] (exclaimed @ 32 # 76 # cs) = exclaimed # splitBoundaries [] (76 # cs)"
  by (simp add: exclaimed_def lit_def boundaryAt_def class_defs)

lemma exclaimed_collapse: "collapseWhitespace exclaimed = exclaimed"
  by (simp add: exclaimed_def lit_def isWhitespace_def)

lemma exclaimed_split: "splitBoundaries [] exclaimed = [exclaimed]"
  by (simp add: exclaimed_def lit_def boundaryAt_def class_defs)

lemma exclaimed_no_control: "\<forall>c \<in> set exclaimed. \<not> isControl c"
  by (simp add: exclaimed_def lit_def isControl_def)

lemma exclaimed_trimmed: "trim exclaimed = exclaimed"
  by (simp add: exclaimed_def lit_def trim_def isWhitespace_def)

lemma exclaimed_length: "MIN_SENTENCE_LENGTH \<le> length exclaimed"
  by (simp add: exclaimed_def lit_def MIN_SENTENCE_LENGTH_def)

lemma exclaimed_head: "\<exists>cs. exclaimed = 76 # cs"
  by (simp add: exclaimed_def lit_def)

lemma exclaimed_last: "exclaimed \<noteq> []" "last exclaimed = 33"
  by (simp_all add: exclaimed_def lit_def)

lemma exclaimed_differs: "exclaimed \<noteq> demoFirst"
  by (simp add: exclaimed_def demoFirst_def lit_def)

lemma exclaimed_tokens: "tokenize asciiOps exclaimed = tokenize asciiOps demoFirst"
  unfolding demoFirst_tokens
  by (simp add: tokenize_def asciiOps_def exclaimed_def lit_def STOPWORDS_def class_defs)

lemma exclaimed_title:
  "buildTitle (exclaimed # rest) = Inr (lit ''Le chat noir mange la souris grise chaque matin'')"
  unfolding buildTitle_Cons by (simp add: exclaimed_def lit_def trim_def class_defs)

lemma exclaimed_thesis:
  "buildThesis (exclaimed # demoFirst # rest) = exclaimed @ 32 # demoFirst"
  unfolding buildThesis_two
  by (simp add: exclaimed_def demoFirst_def lit_def trim_def class_defs)

lemma orderTail_Suc: "orderTail (Suc n) = demoFirst @ 32 # orderTail n"
  by (simp add: orderTail_def)

lemma orderTail_head: "\<exists>cs. orderTail n = 76 # cs"
proof (cases n)
  case 0
  then show ?thesis using exclaimed_head by (simp add: orderTail_def)
next
  case (Suc m)
  from demo_heads(1) obtain cs where d: "demoFirst = 76 # cs" by blast
  show ?thesis unfolding Suc orderTail_Suc d by simp
qed

lemma orderTail_collapse: "collapseWhitespace (orderTail n) = orderTail n"
proof (induction n)
  case 0
  then show ?case by (simp add: orderTail_def exclaimed_collapse)
next
  case (Suc n)
  obtain cs where cs: "orderTail n = 76 # cs" using orderTail_head by blast
  have "collapseWhitespace (orderTail (Suc n)) = demoFirst @ 32 # collapseWhitespace (76 # cs)"
    by (simp only: orderTail_Suc cs unit_collapse)
  also have "\<dots> = demoFirst @ 32 # orderTail n" using Suc cs by simp
  finally show ?case by (simp only: orderTail_Suc)
qed

lemma orderTail_split:
  "splitBoundaries [] (orderTail n) = replicate n demoFirst @ [exclaimed]"
proof (induction n)
  case 0
  then show ?case by (simp add: orderTail_def exclaimed_split)
next
  case (Suc n)
  obtain cs where cs: "orderTail n = 76 # cs" using orderTail_head by blast
  have "splitBoundaries [] (orderTail (Suc n)) = demoFirst # splitBoundaries [] (76 # cs)"
    by (simp only: orderTail_Suc cs unit_split)
  also have "\<dots> = demoFirst # replicate n demoFirst @ [exclaimed]" using Suc cs by simp
  finally show ?case by simp
qed

lemma set_orderTail: "set (orderTail n) \<subseteq> set demoFirst \<union> {32} \<union> set exclaimed"
proof (induction n)
  case 0
  then show ?case by (auto simp: orderTail_def)
next
  case (Suc n)
  then show ?case by (auto simp: orderTail_Suc)
qed

lemma order_collapse: "collapseWhitespace orderText = orderText"
proof -
  obtain cs where cs: "orderTail 179 = 76 # cs" using orderTail_head by blast
  have "collapseWhitespace orderText = exclaimed @ 32 # collapseWhitespace (76 # cs)"
    by (simp only: orderText_def cs exclaimed_unit_collapse)
  also have "\<dots> = exclaimed @ 32 # orderTail 179"
    using orderTail_collapse [of 179] cs by simp
  finally show ?thesis by (simp only: orderText_def)
qed

lemma order_split:
  "splitBoundaries [] orderText = exclaimed # replicate 179 demoFirst @ [exclaimed]"
proof -
  obtain cs where cs: "orderTail 179 = 76 # cs" using orderTail_head by blast
  have "splitBoundaries [] orderText = exclaimed # splitBoundaries [] (76 # cs)"
    by (simp only: orderText_def cs exclaimed_unit_split)
  also have "\<dots> = exclaimed # replicate 179 demoFirst @ [exclaimed]"
    using orderTail_split [of 179] cs by simp
  finally show ?thesis .
qed

lemma order_sanitize: "sanitizeText orderText = orderText"
proof -
  have "\<not> isControl c" if "c \<in> set orderText" for c
  proof -
    from that set_orderTail [of 179]
    have "c \<in> set demoFirst \<union> {32} \<union> set exclaimed" by (auto simp: orderText_def)
    then show ?thesis using demo_no_control exclaimed_no_control by blast
  qed
  then have m: "map (\<lambda>c. if isControl c then 32 else c) orderText = orderText"
    by (intro map_idI) simp
  obtain cs where e: "exclaimed = 76 # cs" using exclaimed_head by blast
  have "hd orderText = 76" unfolding orderText_def e by simp
  then have h: "\<not> isWhitespace (hd orderText)" by (simp add: isWhitespace_def)
  have "last orderText = 33" by (simp add: orderText_def orderTail_def exclaimed_last)
  then have l: "\<not> isWhitespace (last orderText)" by (simp add: isWhitespace_def)
  have "trim orderText = orderText" using h l by (intro trim_id) simp
  then show ?thesis by (simp add: sanitizeText_def order_collapse m)
qed

lemma order_sentences:
  "splitIntoSentences (sanitizeText orderText) = exclaimed # replicate 179 demoFirst @ [exclaimed]"
  by (simp add: order_sanitize splitIntoSentences_def order_split demo_trimmed demo_lengths
      exclaimed_trimmed exclaimed_length)

lemma sortBy_equal_keys:
  assumes "\<forall>x \<in> set xs. key x = k"
  shows "sortBy (\<lambda>a b. key b - key a) xs = xs"
  using assms
proof (induction xs)
  case Nil
  then show ?case by (simp add: sortBy_def)
next
  case (Cons x xs)
  have "sortBy (\<lambda>a b. key b - key a) (x # xs) =
      insertBy (\<lambda>a b. key b - key a) x (sortBy (\<lambda>a b. key b - key a) xs)"
    by (simp add: sortBy_def)
  also have "\<dots> = insertBy (\<lambda>a b. key b - key a) x xs" using Cons by simp
  also have "\<dots> = x # xs" using Cons.prems by (cases xs) simp_all
  finally show ?case .
qed

lemma order_summary: "summarise asciiOps orderText = Inr orderSummary"
proof -
  let ?sents = "exclaimed # replicate 179 demoFirst"
  let ?scores = "scoreSentences asciiOps ?sents (buildFrequencyMap asciiOps ?sents)"
  have s: "slice0 180 (splitIntoSentences (sanitizeText orderText)) = ?sents"
    by (simp add: order_sentences slice0_def)
  have "getOr0 ?scores exclaimed = getOr0 ?scores demoFirst"
    by (simp add: getOr0_def scoreSentences_apply exclaimed_tokens)
  then have "\<forall>x \<in> set ?sents. getOr0 ?scores x = getOr0 ?scores demoFirst" by simp
  then have sorted: "sortBy (\<lambda>a b. getOr0 ?scores b - getOr0 ?scores a) ?sents = ?sents"
    by (rule sortBy_equal_keys)
  have top: "set (slice0 MAX_KEY_POINTS ?sents) = {exclaimed, demoFirst}"
    by (simp add: slice0_def MAX_KEY_POINTS_def)
  have k: "pickTopSentences ?sents ?scores MAX_KEY_POINTS = ?sents"
    by (simp add: pickTopSentences_def Let_def sorted top)
  have r: "replicate 179 demoFirst = demoFirst # replicate 178 demoFirst"
    using replicate_Suc [of 178 demoFirst] by simp
  have t: "buildTitle ?sents = Inr (lit ''Le chat noir mange la souris grise chaque matin'')"
    by (rule exclaimed_title)
  have th: "buildThesis ?sents = exclaimed @ 32 # demoFirst"
    unfolding r by (rule exclaimed_thesis)
  have ne: "demoFirst \<noteq> []" by (simp add: demoFirst_def lit_def)
  have c: "buildCallToAction ?sents = callToActionLeadIn @ demoFirst"
    using ne by (subst buildCallToAction_last) simp_all
  show ?thesis
    unfolding summarise_def Let_def s k t th c orderSummary_def by simp
qed

subsection \<open>Control characters\<close>

lemma control_sanitized:
  "sanitizeText controlText = controlFirst @ 32 # controlSecond @ 32 # controlThird"
  by (simp add: controlText_def controlFirst_def controlSecond_def controlThird_def lit_def
      sanitizeText_def trim_def isWhitespace_def isControl_def)

lemma control_sentences:
  "splitIntoSentences (controlFirst @ 32 # controlSecond @ 32 # controlThird) =
     [controlFirst, controlSecond, controlThird]"
  by (simp add: controlFirst_def controlSecond_def controlThird_def lit_def
      splitIntoSentences_def trim_def boundaryAt_def MIN_SENTENCE_LENGTH_def class_defs)

lemma control_title:
  "buildTitle (controlFirst # rest) = Inr (lit ''Le chat noir mange  la souris grise chaque matin'')"
  unfolding buildTitle_Cons by (simp add: controlFirst_def lit_def trim_def class_defs)

lemma control_thesis:
  "buildThesis (controlFirst # controlSecond # rest) =
     lit ''Le chat noir mange la souris grise chaque matin. Le chien dort sur le tapis rouge du grand salon bleu.''"
  unfolding buildThesis_two
  by (simp add: controlFirst_def controlSecond_def lit_def trim_def class_defs)

lemma control_callToAction:
  "buildCallToAction [controlFirst, controlSecond, controlThird] = callToActionLeadIn @ controlThird"
  by (simp add: buildCallToAction_def controlThird_def lit_def)

lemma control_summary: "summarise U controlText = Inr controlSummary"
proof -
  have s: "slice0 180 (splitIntoSentences (sanitizeText controlText)) =
      [controlFirst, controlSecond, controlThird]"
    by (simp add: control_sanitized control_sentences slice0_def)
  have k: "pickTopSentences [controlFirst, controlSecond, controlThird] scores MAX_KEY_POINTS =
      [controlFirst, controlSecond, controlThird]" for scores
    by (rule pickTop_all) (simp add: MAX_KEY_POINTS_def)
  show ?thesis
    by (simp add: summarise_def Let_def s k control_title control_thesis control_callToAction
        controlSummary_def)
qed

subsection \<open>The two sentences of the frequency example\<close>



section \<open>The claims\<close>

subsection \<open>C1: bounds on keyPoints\<close>

text \<open>
  Claim C1, as stated, fails: the document \<open>dupText\<close> is one sentence written seven
  times; summarise succeeds on it and keyPoints holds that sentence seven times, one more
  than the limit of 6. The selector keeps every sentence whose text is in the set of the
  six strongest, so a repeated text is kept at each of its positions.
\<close>

theorem keyPoints_longer_than_limit_counterexample:
  "summarise asciiOps dupText = Inr dupSummary \<and> length (keyPoints dupSummary) = 7"
  by (simp add: dup_summary) (simp add: dupSummary_def)

text \<open>
  Claim C1, amended: whenever summarise succeeds, keyPoints holds at most 6 distinct
  sentence strings, it is no longer than the segmented sentence sequence, and each of
  its elements is a member of that sequence; when the sentences given to the selector
  (the first 180) are pairwise distinct, keyPoints has at most 6 elements.
\<close>

theorem keyPoints_bounds:
  assumes "summarise U text = Inr r"
  shows "card (set (keyPoints r)) \<le> 6
       \<and> length (keyPoints r) \<le> length (splitIntoSentences (sanitizeText text))
       \<and> set (keyPoints r) \<subseteq> set (splitIntoSentences (sanitizeText text))
       \<and> (distinct (slice0 180 (splitIntoSentences (sanitizeText text)))
            \<longrightarrow> length (keyPoints r) \<le> 6)"
proof -
  let ?full = "splitIntoSentences (sanitizeText text)"
  let ?sents = "slice0 180 ?full"
  let ?kp = "keyPoints r"
  note kp = summarise_Inr(2) [OF assms]
  have 1: "card (set ?kp) \<le> 6"
    using card_set_pickTop [of MAX_KEY_POINTS ?sents] kp by (simp add: MAX_KEY_POINTS_def)
  have f: "?kp = filter (\<lambda>s. s \<in> set ?kp) ?sents"
    using kp pickTop_filter by metis
  have "length ?kp \<le> length ?sents"
    by (subst f) (rule length_filter_le)
  also have "\<dots> \<le> length ?full" by (simp add: slice0_nonneg)
  finally have 2: "length ?kp \<le> length ?full" .
  have 3: "set ?kp \<subseteq> set ?full"
    using set_pickTop_subset set_slice0 kp by fastforce
  have 4: "length ?kp \<le> 6" if "distinct ?sents"
  proof -
    have "distinct ?kp" by (subst f) (simp add: that)
    then have "length ?kp = card (set ?kp)" by (simp add: distinct_card)
    with 1 show ?thesis by simp
  qed
  from 1 2 3 4 show ?thesis by blast
qed

theorem keyPoints_bounds_witness:
  "card (set [demoFirst, demoSecond]) \<le> 6
   \<and> set [demoFirst, demoSecond] \<subseteq> set (splitIntoSentences (sanitizeText demoText))
   \<and> distinct (slice0 180 (splitIntoSentences (sanitizeText demoText)))
   \<and> length [demoFirst, demoSecond] \<le> 6"
proof -
  have d: "distinct (slice0 180 (splitIntoSentences (sanitizeText demoText)))"
    by (simp add: demo_sentences slice0_def) (simp add: demoFirst_def demoSecond_def lit_def)
  show ?thesis
    using keyPoints_bounds [OF demo_summary [of asciiOps]] d by simp
qed

subsection \<open>C2: sentences without tokens\<close>




subsection \<open>C3: the sanitizer and consecutive spaces\<close>

text \<open>
  Claim C3: the output of the sanitizer never holds two consecutive spaces. The code
  does not keep to it. \<open>controlText\<close> is a document of 208 code units, enough for the
  request handler to pass it on, with two control characters U+0001 between two words.
  sanitizeText collapses the white-space runs first and replaces the control characters
  afterwards, so its output holds two spaces at positions 18 and 19. The first key point
  and the title carry them; the thesis, which buildThesis collapses once more, does not.
\<close>

theorem sanitizeText_two_consecutive_spaces:
  "200 \<le> length (trim controlText)
   \<and> sanitizeText controlText = controlFirst @ 32 # controlSecond @ 32 # controlThird
   \<and> sanitizeText controlText ! 18 = 32 \<and> sanitizeText controlText ! 19 = 32
   \<and> summarise asciiOps controlText = Inr controlSummary"
proof -
  have "200 \<le> length (trim controlText)"
    by (simp add: controlText_def lit_def trim_def isWhitespace_def)
  moreover have "(controlFirst @ 32 # controlSecond @ 32 # controlThird) ! 18 = 32"
    "(controlFirst @ 32 # controlSecond @ 32 # controlThird) ! 19 = 32"
    by (simp_all add: controlFirst_def lit_def)
  ultimately show ?thesis by (simp add: control_sanitized control_summary)
qed

subsection \<open>C4: the one error\<close>

text \<open>
  Claim C4: summarise fails with EmptyDocument exactly when no sentence is left after
  sanitizing, segmenting and dropping the pieces shorter than 40 code units; it fails in
  no other way; it returns a summary whenever a sentence is left; and it fails on every
  text whose sanitized form is shorter than 40 code units.
\<close>

theorem summarise_fails_iff_no_sentence:
  "(summarise U text = Inl EmptyDocument \<longleftrightarrow> splitIntoSentences (sanitizeText text) = [])
   \<and> (\<forall>e. summarise U text = Inl e \<longrightarrow> e = EmptyDocument)
   \<and> (splitIntoSentences (sanitizeText text) \<noteq> [] \<longrightarrow> (\<exists>r. summarise U text = Inr r))
   \<and> (length (sanitizeText text) < MIN_SENTENCE_LENGTH \<longrightarrow> summarise U text = Inl EmptyDocument)"
proof -
  have 1: "summarise U text = Inl EmptyDocument \<longleftrightarrow> splitIntoSentences (sanitizeText text) = []"
    by (simp add: summarise_Inl)
  have 2: "e = EmptyDocument" if "summarise U text = Inl e" for e
    using that by (simp add: summarise_Inl)
  have 3: "\<exists>r. summarise U text = Inr r" if "splitIntoSentences (sanitizeText text) \<noteq> []"
  proof (cases "summarise U text")
    case (Inl e)
    with that show ?thesis by (simp add: summarise_Inl)
  next
    case (Inr r)
    then show ?thesis by blast
  qed
  have 4: "summarise U text = Inl EmptyDocument" if "length (sanitizeText text) < MIN_SENTENCE_LENGTH"
    using short_text_no_sentence [OF that] by (simp add: summarise_Inl)
  from 1 2 3 4 show ?thesis by blast
qed

theorem summarise_fails_iff_no_sentence_witness:
  "length (sanitizeText (lit ''Bonjour.'')) < MIN_SENTENCE_LENGTH
   \<and> summarise asciiOps (lit ''Bonjour.'') = Inl EmptyDocument
   \<and> splitIntoSentences (sanitizeText demoText) \<noteq> []
   \<and> (\<exists>r. summarise asciiOps demoText = Inr r)"
proof -
  have a: "length (sanitizeText (lit ''Bonjour.'')) < MIN_SENTENCE_LENGTH"
    by (simp add: lit_def sanitizeText_def trim_def MIN_SENTENCE_LENGTH_def class_defs)
  have b: "splitIntoSentences (sanitizeText demoText) \<noteq> []"
    by (simp add: demo_sentences)
  from a b summarise_fails_iff_no_sentence [of asciiOps "lit ''Bonjour.''"]
    summarise_fails_iff_no_sentence [of asciiOps demoText]
  show ?thesis by blast
qed

subsection \<open>C5: document order\<close>

text \<open>
  Claim C5, as stated for the whole segmented sentence sequence, fails:
  \<open>orderText\<close> is segmented into 181 sentences, \<open>exclaimed\<close> first, 179 times
  \<open>demoFirst\<close>, and \<open>exclaimed\<close> again. summarise keeps the first 180, all of
  the same score, and every one of them is a key point. \<open>demoFirst\<close> (at position 1)
  occurs before \<open>exclaimed\<close> (at position 180) in the segmented sequence and both are
  key points, but in keyPoints \<open>exclaimed\<close> occurs at the head only, so \<open>demoFirst\<close>
  does not occur before it.
\<close>

theorem keyPoints_order_beyond_truncation_counterexample:
  "summarise asciiOps orderText = Inr orderSummary
   \<and> 180 < length (splitIntoSentences (sanitizeText orderText))
   \<and> splitIntoSentences (sanitizeText orderText) ! 1 = demoFirst
   \<and> splitIntoSentences (sanitizeText orderText) ! 180 = exclaimed
   \<and> demoFirst \<in> set (keyPoints orderSummary)
   \<and> exclaimed \<in> set (keyPoints orderSummary)
   \<and> keyPoints orderSummary = exclaimed # replicate 179 demoFirst
   \<and> exclaimed \<notin> set (replicate 179 demoFirst)"
proof -
  have "(exclaimed # replicate 179 demoFirst @ [exclaimed]) ! 180 = exclaimed"
    by (simp add: nth_append)
  moreover have "(exclaimed # replicate 179 demoFirst @ [exclaimed]) ! 1 = demoFirst"
    by (simp add: nth_append)
  ultimately show ?thesis
    using exclaimed_differs
    by (simp add: order_summary order_sentences) (simp add: orderSummary_def)
qed

text \<open>
  Claim C5, amended: whenever summarise succeeds, keyPoints is a subsequence of the
  sentences given to the selector (the first 180 of the segmented sentence sequence),
  hence of the segmented sequence; and for two positions \<open>i < j\<close> among those first 180
  whose sentences are both key points, the sentence at \<open>i\<close> occurs in keyPoints before
  the sentence at \<open>j\<close>. Scores play no part.
\<close>

theorem keyPoints_order_within_first_180:
  assumes "summarise U text = Inr r"
  shows "subseq (keyPoints r) (slice0 180 (splitIntoSentences (sanitizeText text)))
       \<and> subseq (keyPoints r) (splitIntoSentences (sanitizeText text))
       \<and> (\<forall>i j. i < j \<and> j < length (slice0 180 (splitIntoSentences (sanitizeText text)))
              \<and> slice0 180 (splitIntoSentences (sanitizeText text)) ! i \<in> set (keyPoints r)
              \<and> slice0 180 (splitIntoSentences (sanitizeText text)) ! j \<in> set (keyPoints r)
            \<longrightarrow> (\<exists>i' j'. i' < j' \<and> j' < length (keyPoints r)
                   \<and> keyPoints r ! i' = slice0 180 (splitIntoSentences (sanitizeText text)) ! i
                   \<and> keyPoints r ! j' = slice0 180 (splitIntoSentences (sanitizeText text)) ! j))"
proof -
  let ?full = "splitIntoSentences (sanitizeText text)"
  let ?sents = "slice0 180 ?full"
  let ?kp = "keyPoints r"
  have kp: "?kp = filter (\<lambda>s. s \<in> set ?kp) ?sents"
    using summarise_Inr(2) [OF assms] pickTop_filter by metis
  have 1: "subseq ?kp ?sents" by (subst kp) simp
  moreover have "subseq ?sents ?full" by (rule subseq_slice0)
  ultimately have 2: "subseq ?kp ?full" by (rule subseq_order.order_trans)
  have 3: "\<exists>i' j'. i' < j' \<and> j' < length ?kp \<and> ?kp ! i' = ?sents ! i \<and> ?kp ! j' = ?sents ! j"
    if "i < j" "j < length ?sents" "?sents ! i \<in> set ?kp" "?sents ! j \<in> set ?kp" for i j
  proof -
    have "\<exists>i' j'. i' < j' \<and> j' < length (filter (\<lambda>s. s \<in> set ?kp) ?sents) \<and>
            filter (\<lambda>s. s \<in> set ?kp) ?sents ! i' = ?sents ! i \<and>
            filter (\<lambda>s. s \<in> set ?kp) ?sents ! j' = ?sents ! j"
      using that by (intro filter_keeps_order) simp_all
    then show ?thesis using kp by simp
  qed
  from 1 2 3 show ?thesis by blast
qed

theorem keyPoints_order_within_first_180_witness:
  "subseq [demoFirst, demoSecond] (splitIntoSentences (sanitizeText demoText))
   \<and> (0::nat) < 1 \<and> 1 < length (slice0 180 (splitIntoSentences (sanitizeText demoText)))
   \<and> slice0 180 (splitIntoSentences (sanitizeText demoText)) ! 0 \<in> set [demoFirst, demoSecond]
   \<and> slice0 180 (splitIntoSentences (sanitizeText demoText)) ! 1 \<in> set [demoFirst, demoSecond]
   \<and> (\<exists>i' j'. i' < j' \<and> j' < length [demoFirst, demoSecond]
          \<and> [demoFirst, demoSecond] ! i' = slice0 180 (splitIntoSentences (sanitizeText demoText)) ! 0
          \<and> [demoFirst, demoSecond] ! j' = slice0 180 (splitIntoSentences (sanitizeText demoText)) ! 1)"
proof -
  note order = keyPoints_order_within_first_180 [OF demo_summary [of asciiOps]]
  have a: "(0::nat) < 1 \<and> 1 < length (slice0 180 (splitIntoSentences (sanitizeText demoText)))
      \<and> slice0 180 (splitIntoSentences (sanitizeText demoText)) ! 0 \<in> set [demoFirst, demoSecond]
      \<and> slice0 180 (splitIntoSentences (sanitizeText demoText)) ! 1 \<in> set [demoFirst, demoSecond]"
    by (simp add: demo_sentences slice0_def)
  from order have "subseq [demoFirst, demoSecond] (splitIntoSentences (sanitizeText demoText))"
    by simp
  moreover from order
  have "\<forall>i j. i < j \<and> j < length (slice0 180 (splitIntoSentences (sanitizeText demoText)))
           \<and> slice0 180 (splitIntoSentences (sanitizeText demoText)) ! i \<in> set [demoFirst, demoSecond]
           \<and> slice0 180 (splitIntoSentences (sanitizeText demoText)) ! j \<in> set [demoFirst, demoSecond]
         \<longrightarrow> (\<exists>i' j'. i' < j' \<and> j' < length [demoFirst, demoSecond]
                \<and> [demoFirst, demoSecond] ! i' = slice0 180 (splitIntoSentences (sanitizeText demoText)) ! i
                \<and> [demoFirst, demoSecond] ! j' = slice0 180 (splitIntoSentences (sanitizeText demoText)) ! j)"
    by (simp only: summary.select_convs) (rule conjunct2, rule conjunct2)
  ultimately show ?thesis using a by blast
qed

subsection \<open>C6: frequencies and scores\<close>



subsection \<open>C7: no terminal punctuation\<close>

text \<open>
  Claim C7: a sanitized text without any of the marks \<open>.\<close>, \<open>!\<close> and \<open>?\<close> is
  segmented into exactly one sentence, the whole text, when it has at least 40 code
  units, and into no sentence otherwise.
\<close>

theorem no_terminal_mark_one_sentence:
  assumes "\<forall>c \<in> set (sanitizeText raw). \<not> isTerminal c"
  shows "splitIntoSentences (sanitizeText raw) =
           (if MIN_SENTENCE_LENGTH \<le> length (sanitizeText raw) then [sanitizeText raw] else [])"
  using splitIntoSentences_no_terminal [OF assms] by (simp add: trim_sanitizeText)

theorem no_terminal_mark_one_sentence_witness:
  "sanitizeText (lit ''  le chat noir mange la souris grise chaque matin  '') =
       lit ''le chat noir mange la souris grise chaque matin''
   \<and> splitIntoSentences (sanitizeText (lit ''  le chat noir mange la souris grise chaque matin  '')) =
       [lit ''le chat noir mange la souris grise chaque matin'']
   \<and> sanitizeText (lit '' le chat noir '') = lit ''le chat noir''
   \<and> splitIntoSentences (sanitizeText (lit '' le chat noir '')) = []"
proof -
  have a: "sanitizeText (lit ''  le chat noir mange la souris grise chaque matin  '') =
       lit ''le chat noir mange la souris grise chaque matin''"
    by (simp add: lit_def sanitizeText_def trim_def class_defs)
  have b: "sanitizeText (lit '' le chat noir '') = lit ''le chat noir''"
    by (simp add: lit_def sanitizeText_def trim_def class_defs)
  have c: "\<forall>c \<in> set (sanitizeText (lit ''  le chat noir mange la souris grise chaque matin  '')). \<not> isTerminal c"
    unfolding a by (simp add: lit_def isTerminal_def)
  have d: "\<forall>c \<in> set (sanitizeText (lit '' le chat noir '')). \<not> isTerminal c"
    unfolding b by (simp add: lit_def isTerminal_def)
  have e: "MIN_SENTENCE_LENGTH \<le> length (lit ''le chat noir mange la souris grise chaque matin'')"
    by (simp add: lit_def MIN_SENTENCE_LENGTH_def)
  have f: "\<not> MIN_SENTENCE_LENGTH \<le> length (lit ''le chat noir'')"
    by (simp add: lit_def MIN_SENTENCE_LENGTH_def)
  show ?thesis
    using no_terminal_mark_one_sentence [OF c] no_terminal_mark_one_sentence [OF d] e f
    unfolding a b by simp
qed

subsection \<open>C8: the title\<close>

text \<open>
  Claim C8: the title of no key sentence is the fallback string; otherwise it is the
  first key sentence up to its first \<open>:\<close>, \<open>.\<close>, \<open>!\<close> or \<open>?\<close>, trimmed, and the
  fallback string only when that is empty. Without a delimiter it is the whole sentence,
  trimmed; with a delimiter after a text that is not all white space it is that text,
  trimmed, not the fallback.
\<close>

theorem buildTitle_text_before_first_delimiter:
  "buildTitle [] = Inr titleFallback
   \<and> buildTitle (first # rest) =
       Inr (if trim (takeWhile (\<lambda>c. \<not> isTitleDelimiter c) first) = [] then titleFallback
            else trim (takeWhile (\<lambda>c. \<not> isTitleDelimiter c) first))
   \<and> ((\<forall>c \<in> set first. \<not> isTitleDelimiter c) \<longrightarrow>
        buildTitle (first # rest) = Inr (if trim first = [] then titleFallback else trim first))
   \<and> ((\<forall>c \<in> set before. \<not> isTitleDelimiter c) \<and> isTitleDelimiter d \<and> trim before \<noteq> [] \<longrightarrow>
        buildTitle ((before @ d # after) # rest) = Inr (trim before))"
proof -
  have 1: "buildTitle [] = Inr titleFallback" by (simp add: buildTitle_def)
  have 3: "buildTitle (first # rest) = Inr (if trim first = [] then titleFallback else trim first)"
    if "\<forall>c \<in> set first. \<not> isTitleDelimiter c"
  proof -
    have tw: "takeWhile (\<lambda>c. \<not> isTitleDelimiter c) first = first"
      using that by (simp add: takeWhile_eq_all_conv)
    show ?thesis by (simp only: buildTitle_Cons tw)
  qed
  have 4: "buildTitle ((before @ d # after) # rest) = Inr (trim before)"
    if "\<forall>c \<in> set before. \<not> isTitleDelimiter c" "isTitleDelimiter d" "trim before \<noteq> []"
  proof -
    have tw: "takeWhile (\<lambda>c. \<not> isTitleDelimiter c) (before @ d # after) = before"
      using that(1,2) by (simp add: takeWhile_append2 [of before])
    show ?thesis using that(3) by (simp only: buildTitle_Cons tw if_False)
  qed
  from 1 buildTitle_Cons [of first rest] 3 4 show ?thesis by blast
qed

theorem buildTitle_text_before_first_delimiter_witness:
  "buildTitle [lit ''Le chien dort: sur le tapis rouge du grand salon bleu.''] = Inr (lit ''Le chien dort'')
   \<and> buildTitle [lit '' sans ponctuation ''] = Inr (lit ''sans ponctuation'')"
proof -
  have a: "\<forall>c \<in> set (lit ''Le chien dort''). \<not> isTitleDelimiter c"
    by (simp add: lit_def isTitleDelimiter_def)
  have b: "isTitleDelimiter 58" by (simp add: isTitleDelimiter_def)
  have c: "trim (lit ''Le chien dort'') = lit ''Le chien dort''"
    by (simp add: lit_def trim_def class_defs)
  have d: "lit ''Le chien dort'' \<noteq> []" by (simp add: lit_def)
  have e: "lit ''Le chien dort: sur le tapis rouge du grand salon bleu.'' =
      lit ''Le chien dort'' @ 58 # lit '' sur le tapis rouge du grand salon bleu.''"
    by (simp add: lit_def)
  have f: "\<forall>c \<in> set (lit '' sans ponctuation ''). \<not> isTitleDelimiter c"
    by (simp add: lit_def isTitleDelimiter_def)
  have g: "trim (lit '' sans ponctuation '') = lit ''sans ponctuation''"
    by (simp add: lit_def trim_def class_defs)
  have h: "lit ''sans ponctuation'' \<noteq> []" by (simp add: lit_def)
  note T = buildTitle_text_before_first_delimiter
      [of "lit '' sans ponctuation ''" "[]" "lit ''Le chien dort''" 58
          "lit '' sur le tapis rouge du grand salon bleu.''"]
  have nz: "trim (lit ''Le chien dort'') \<noteq> []" using c d by simp
  have 1: "buildTitle [lit ''Le chien dort'' @ 58 # lit '' sur le tapis rouge du grand salon bleu.''] =
      Inr (trim (lit ''Le chien dort''))"
    using T a b nz by blast
  have 2: "buildTitle [lit '' sans ponctuation ''] =
      Inr (if trim (lit '' sans ponctuation '') = [] then titleFallback
           else trim (lit '' sans ponctuation ''))"
    using T f by blast
  show ?thesis using 1 2 h unfolding e c g by simp
qed

subsection \<open>C9: the call to action\<close>

text \<open>
  Claim C9, as stated, fails: \<open>longText\<close> is segmented into 181 sentences, the last of
  them \<open>demoSecond\<close>. summarise keeps the first 180 before anything else is computed,
  and the call to action is the lead-in followed by the 180th sentence, \<open>demoFirst\<close>;
  the final sentence of the document is no part of it.
\<close>

theorem callToAction_after_truncation_counterexample:
  "summarise asciiOps longText = Inr longSummary
   \<and> length (splitIntoSentences (sanitizeText longText)) = 181
   \<and> last (splitIntoSentences (sanitizeText longText)) = demoSecond
   \<and> callToAction longSummary = callToActionLeadIn @ demoFirst
   \<and> callToAction longSummary \<noteq> callToActionLeadIn @ demoSecond
   \<and> \<not> sublist demoSecond (callToAction longSummary)"
proof -
  have ne: "demoFirst \<noteq> demoSecond" by (simp add: demoFirst_def demoSecond_def lit_def)
  have "98 \<in> set demoSecond" by (simp add: demoSecond_def lit_def)
  moreover have "98 \<notin> set (callToActionLeadIn @ demoFirst)"
    by (simp add: callToActionLeadIn_def demoFirst_def lit_def)
  ultimately have ns: "\<not> sublist demoSecond (callToActionLeadIn @ demoFirst)"
    using set_mono_sublist by blast
  show ?thesis
    using ne ns by (simp add: long_summary long_sentences) (simp add: longSummary_def)
qed

text \<open>
  Claim C9, amended: whenever summarise succeeds, callToAction is the lead-in followed
  by the last of the first 180 segmented sentences: the last segmented sentence of a
  document of at most 180 sentences, the 180th sentence of a longer one.
\<close>

theorem callToAction_last_of_first_180:
  assumes "summarise U text = Inr r"
  shows "callToAction r =
           callToActionLeadIn @ last (slice0 180 (splitIntoSentences (sanitizeText text)))
       \<and> (length (splitIntoSentences (sanitizeText text)) \<le> 180 \<longrightarrow>
            callToAction r = callToActionLeadIn @ last (splitIntoSentences (sanitizeText text)))
       \<and> (180 < length (splitIntoSentences (sanitizeText text)) \<longrightarrow>
            callToAction r = callToActionLeadIn @ splitIntoSentences (sanitizeText text) ! 179)"
proof -
  let ?full = "splitIntoSentences (sanitizeText text)"
  let ?sents = "slice0 180 ?full"
  have ne: "?sents \<noteq> []" using assms by (rule summarise_Inr(1))
  then have "last ?sents \<in> set ?full" using set_slice0 [of 180 ?full] last_in_set by blast
  then have "MIN_SENTENCE_LENGTH \<le> length (last ?sents)" by (rule length_sentence_le(1))
  then have "last ?sents \<noteq> []" by (auto simp: MIN_SENTENCE_LENGTH_def)
  with ne have 1: "callToAction r = callToActionLeadIn @ last ?sents"
    using summarise_Inr(3) [OF assms] by (simp add: buildCallToAction_last)
  have 2: "callToAction r = callToActionLeadIn @ last ?full" if "length ?full \<le> 180"
    using 1 that by (simp add: slice0_nonneg)
  have 3: "callToAction r = callToActionLeadIn @ ?full ! 179" if "180 < length ?full"
  proof -
    have t: "?sents = take 180 ?full" by (simp add: slice0_nonneg)
    have len: "length (take 180 ?full) = 180" using that by simp
    have nn: "take 180 ?full \<noteq> []" using that by auto
    have "last (take 180 ?full) = take 180 ?full ! (length (take 180 ?full) - 1)"
      using nn by (rule last_conv_nth)
    also have "\<dots> = take 180 ?full ! 179" by (simp only: len) simp
    also have "\<dots> = ?full ! 179" by simp
    finally show ?thesis using 1 t by simp
  qed
  from 1 2 3 show ?thesis by blast
qed

theorem callToAction_last_of_first_180_witness:
  "length (splitIntoSentences (sanitizeText demoText)) \<le> 180
   \<and> callToActionLeadIn @ demoSecond =
       callToActionLeadIn @ last (splitIntoSentences (sanitizeText demoText))
   \<and> 180 < length (splitIntoSentences (sanitizeText longText))
   \<and> callToAction longSummary =
       callToActionLeadIn @ splitIntoSentences (sanitizeText longText) ! 179"
proof -
  have a: "length (splitIntoSentences (sanitizeText demoText)) \<le> 180"
    by (simp add: demo_sentences)
  have b: "180 < length (splitIntoSentences (sanitizeText longText))"
    by (simp add: long_sentences)
  note demo = callToAction_last_of_first_180 [OF demo_summary [of asciiOps]]
  note long = callToAction_last_of_first_180 [OF long_summary [of asciiOps]]
  from demo a have "callToActionLeadIn @ demoSecond =
      callToActionLeadIn @ last (splitIntoSentences (sanitizeText demoText))"
    by simp
  moreover from long b have "callToAction longSummary =
      callToActionLeadIn @ splitIntoSentences (sanitizeText longText) ! 179"
    by blast
  ultimately show ?thesis using a b by blast
qed

subsection \<open>C10: selection by sentence text\<close>

text \<open>
  Claim C10: for every sentence sequence, score map and limit, a sentence string that
  occurs in the output of pickTopSentences occurs there as often as in the input, at all
  of its positions: the occurrences of one string are kept or dropped together.
\<close>

theorem pickTopSentences_keeps_all_occurrences:
  assumes "s \<in> set (pickTopSentences sentences scores limit)"
  shows "filter (\<lambda>x. x = s) (pickTopSentences sentences scores limit) = filter (\<lambda>x. x = s) sentences
       \<and> count_list (pickTopSentences sentences scores limit) s = count_list sentences s"
proof -
  let ?out = "pickTopSentences sentences scores limit"
  have "filter (\<lambda>x. x = s) ?out = filter (\<lambda>x. x = s) (filter (\<lambda>x. x \<in> set ?out) sentences)"
    using pickTop_filter [of sentences scores limit] by simp
  also have "\<dots> = filter (\<lambda>x. x = s) sentences"
    using assms by (auto simp: intro: filter_cong)
  finally have eq: "filter (\<lambda>x. x = s) ?out = filter (\<lambda>x. x = s) sentences" .
  have "count_list xs s = length (filter (\<lambda>x. x = s) xs)" for xs :: "jsstring list"
    by (induction xs) auto
  with eq show ?thesis by simp
qed

theorem pickTopSentences_keeps_all_occurrences_witness:
  "lit ''b'' \<in> set (pickTopSentences [lit ''b'', lit ''a'', lit ''b''] [lit ''a'' \<mapsto> 1, lit ''b'' \<mapsto> 2] 1)
   \<and> count_list (pickTopSentences [lit ''b'', lit ''a'', lit ''b''] [lit ''a'' \<mapsto> 1, lit ''b'' \<mapsto> 2] 1) (lit ''b'') = 2"
proof -
  have h: "lit ''b'' \<in> set (pickTopSentences [lit ''b'', lit ''a'', lit ''b''] [lit ''a'' \<mapsto> 1, lit ''b'' \<mapsto> 2] 1)"
    by (simp add: pickTopSentences_def sortBy_def getOr0_def slice0_def lit_def)
  show ?thesis
    using h pickTopSentences_keeps_all_occurrences [OF h] by (simp add: lit_def)
qed

end
